theory Spec2Isabelle
  imports Main "HOL-Library.Word"
begin

section \<open>Data model of memory\_manager.c\<close>

text \<open>
  \<^verbatim>\<open>size_t\<close> is the unsigned 64-bit integer of an LP64 host: addition and subtraction
  wrap around, comparisons are unsigned.  The arena is a byte buffer addressed by offset.
\<close>

type_synonym size_t = "64 word"
type_synonym byte = "8 word"
type_synonym arena = "size_t \<Rightarrow> byte"

text \<open>
  \<^verbatim>\<open>struct MemBlock\<close>.  The field \<^verbatim>\<open>size\<close> is called \<open>size_b\<close> here, since
  \<open>size\<close> is a constant of HOL.  The \<^verbatim>\<open>next\<close> link is the order of the list that holds
  the chain: \<^verbatim>\<open>block_list\<close> is the list's head, \<^verbatim>\<open>curr->next\<close> is the tail's head.
\<close>

record MemBlock =
  offset :: size_t
  size_b :: size_t
  is_free :: bool

text \<open>
  A pointer handed to or returned by the allocator: \<open>None\<close> is \<^verbatim>\<open>NULL\<close>, and
  \<open>Some off\<close> is the address \<^verbatim>\<open>memory_pool + off\<close>, so that
  \<^verbatim>\<open>(char *)ptr - memory_pool\<close> is \<open>off\<close>.
\<close>

type_synonym ptr = "size_t option"

text \<open>The globals \<^verbatim>\<open>memory_pool\<close> (its bytes), \<^verbatim>\<open>pool_size\<close> and \<^verbatim>\<open>block_list\<close>.\<close>

record pool =
  memory_pool :: arena
  pool_size :: size_t
  block_list :: "MemBlock list"

section \<open>Operations\<close>

subsection \<open>mem\_init\<close>

definition create_initial_block :: "size_t \<Rightarrow> MemBlock list" where
  "create_initial_block sz = [\<lparr>offset = 0, size_b = sz, is_free = True\<rparr>]"

text \<open>
  \<open>pool_ok\<close> and \<open>list_ok\<close> say whether the host's \<^verbatim>\<open>malloc\<close> of the arena and of the
  first descriptor succeed; \<open>bytes\<close> is the content of the fresh arena.  A failed
  \<^verbatim>\<open>malloc\<close> ends the process (\<^verbatim>\<open>exit(EXIT_FAILURE)\<close>): the result is \<open>None\<close>.
\<close>

definition mem_init :: "bool \<Rightarrow> bool \<Rightarrow> arena \<Rightarrow> size_t \<Rightarrow> pool option" where
  "mem_init pool_ok list_ok bytes sz =
     (if \<not> pool_ok then None
      else if \<not> list_ok then None
      else Some \<lparr>memory_pool = bytes, pool_size = sz,
                 block_list = create_initial_block sz\<rparr>)"

subsection \<open>mem\_alloc\<close>

text \<open>The loop of the \<^verbatim>\<open>size == 0\<close> case: the address of the first free block.\<close>

fun first_free :: "MemBlock list \<Rightarrow> ptr" where
  "first_free [] = None"
| "first_free (cur # rest) =
     (if is_free cur then Some (offset cur) else first_free rest)"

text \<open>
  The first-fit loop.  \<open>ok\<close> says whether the \<^verbatim>\<open>malloc\<close> of the descriptor of the
  remainder succeeds; the loop calls \<^verbatim>\<open>malloc\<close> at most once.
\<close>

fun alloc_scan :: "bool \<Rightarrow> size_t \<Rightarrow> MemBlock list \<Rightarrow> ptr \<times> MemBlock list" where
  "alloc_scan ok n [] = (None, [])"
| "alloc_scan ok n (cur # rest) =
     (if \<not> is_free cur \<or> size_b cur < n then
        (case alloc_scan ok n rest of (p, rest') \<Rightarrow> (p, cur # rest'))
      else if n < size_b cur then
        (if \<not> ok then (None, cur # rest)
         else (Some (offset cur),
               cur\<lparr>size_b := n, is_free := False\<rparr>
               # \<lparr>offset = offset cur + n, size_b = size_b cur - n, is_free = True\<rparr>
               # rest))
      else (Some (offset cur), cur\<lparr>is_free := False\<rparr> # rest))"

definition mem_alloc :: "bool \<Rightarrow> pool \<Rightarrow> size_t \<Rightarrow> ptr \<times> pool" where
  "mem_alloc ok s n =
     (if n = 0 then (first_free (block_list s), s)
      else (case alloc_scan ok n (block_list s) of
              (p, bl) \<Rightarrow> (p, s\<lparr>block_list := bl\<rparr>)))"

subsection \<open>mem\_free\<close>

text \<open>
  The loop of \<^verbatim>\<open>mem_free\<close>.  \<open>prev\<close> is the loop's \<^verbatim>\<open>prev\<close> pointer (\<open>None\<close> is
  \<^verbatim>\<open>NULL\<close>), \<open>front\<close> holds the blocks in front of \<open>prev\<close>, and the last argument is
  the chain from \<^verbatim>\<open>curr\<close> on.
\<close>

fun prev_list :: "MemBlock option \<Rightarrow> MemBlock list" where
  "prev_list None = []"
| "prev_list (Some p) = [p]"

fun free_scan ::
  "size_t \<Rightarrow> MemBlock list \<Rightarrow> MemBlock option \<Rightarrow> MemBlock list \<Rightarrow> MemBlock list" where
  "free_scan off front prev [] = front @ prev_list prev"
| "free_scan off front prev (cur # rest) =
     (if offset cur \<noteq> off then free_scan off (front @ prev_list prev) (Some cur) rest
      else if is_free cur then front @ prev_list prev @ cur # rest
      else
        (let cur1 = cur\<lparr>is_free := True\<rparr>;
             (cur2, rest2) =
               (case rest of
                  [] \<Rightarrow> (cur1, rest)
                | nx # rest' \<Rightarrow>
                    if is_free nx then (cur1\<lparr>size_b := size_b cur1 + size_b nx\<rparr>, rest')
                    else (cur1, rest))
         in case prev of
              None \<Rightarrow> front @ cur2 # rest2
            | Some p \<Rightarrow>
                if is_free p then front @ p\<lparr>size_b := size_b p + size_b cur2\<rparr> # rest2
                else front @ p # cur2 # rest2))"

definition mem_free :: "pool \<Rightarrow> ptr \<Rightarrow> pool" where
  "mem_free s p =
     (case p of
        None \<Rightarrow> s
      | Some off \<Rightarrow> s\<lparr>block_list := free_scan off [] None (block_list s)\<rparr>)"

subsection \<open>mem\_resize\<close>

text \<open>
  \<^verbatim>\<open>memcpy(dst, src, n)\<close> on the arena, for regions that do not overlap: the byte at
  \<open>i\<close> with \<open>dst \<le> i < dst + n\<close> becomes the byte at \<open>src + (i - dst)\<close>.
\<close>

definition memcpy :: "arena \<Rightarrow> size_t \<Rightarrow> size_t \<Rightarrow> size_t \<Rightarrow> arena" where
  "memcpy m dst src n = (\<lambda>i. if i - dst < n then m (src + (i - dst)) else m i)"

text \<open>
  What the loop of \<^verbatim>\<open>mem_resize\<close> decides under the lock: it returns a pointer
  (\<open>Done\<close>), leaves the loop for the relocation of Step 6 with \<^verbatim>\<open>old_size\<close>
  (\<open>Relocate\<close>), or finds no block (\<open>NotFound\<close>).
\<close>

datatype resize_step = Done ptr | Relocate size_t | NotFound

fun resize_scan ::
  "bool \<Rightarrow> size_t \<Rightarrow> size_t \<Rightarrow> MemBlock list \<Rightarrow> resize_step \<times> MemBlock list" where
  "resize_scan ok off n [] = (NotFound, [])"
| "resize_scan ok off n (cur # rest) =
     (if offset cur \<noteq> off then
        (case resize_scan ok off n rest of (r, rest') \<Rightarrow> (r, cur # rest'))
      else if n \<le> size_b cur then
        (if n < size_b cur then
           (if \<not> ok then (Done None, cur # rest)
            else (Done (Some off),
                  cur\<lparr>size_b := n\<rparr>
                  # \<lparr>offset = offset cur + n, size_b = size_b cur - n, is_free = True\<rparr>
                  # rest))
         else (Done (Some off), cur # rest))
      else
        (case rest of
           [] \<Rightarrow> (Relocate (size_b cur), cur # rest)
         | nx # rest' \<Rightarrow>
             if is_free nx \<and> n \<le> size_b cur + size_b nx then
               (let cur1 = cur\<lparr>size_b := size_b cur + size_b nx\<rparr> in
                  if n < size_b cur1 then
                    (if \<not> ok then (Done None, cur1 # rest')
                     else (Done (Some off),
                           cur1\<lparr>size_b := n\<rparr>
                           # \<lparr>offset = offset cur1 + n, size_b = size_b cur1 - n,
                              is_free = True\<rparr>
                           # rest'))
                  else (Done (Some off), cur1 # rest'))
             else (Relocate (size_b cur), cur # rest)))"

text \<open>
  Every path of \<^verbatim>\<open>mem_resize\<close> calls \<^verbatim>\<open>malloc\<close> at most once (in the loop, or in the
  \<^verbatim>\<open>mem_alloc\<close> of the relocation), so one \<open>ok\<close> stands for its outcome.
\<close>

definition mem_resize :: "bool \<Rightarrow> pool \<Rightarrow> ptr \<Rightarrow> size_t \<Rightarrow> ptr \<times> pool" where
  "mem_resize ok s p n =
     (case p of
        None \<Rightarrow> mem_alloc ok s n
      | Some off \<Rightarrow>
          if n = 0 then (None, mem_free s p)
          else
            (case resize_scan ok off n (block_list s) of
               (Done r, bl) \<Rightarrow> (r, s\<lparr>block_list := bl\<rparr>)
             | (NotFound, bl) \<Rightarrow> (None, s\<lparr>block_list := bl\<rparr>)
             | (Relocate old_size, bl) \<Rightarrow>
                 (case mem_alloc ok (s\<lparr>block_list := bl\<rparr>) n of
                    (None, s1) \<Rightarrow> (None, s1)
                  | (Some new_off, s1) \<Rightarrow>
                      (Some new_off,
                       mem_free
                         (s1\<lparr>memory_pool :=
                               memcpy (memory_pool s1) new_off off (min old_size n)\<rparr>)
                         p))))"

subsection \<open>Sequences of calls\<close>

datatype call = Allocate bool size_t | Release ptr | Resize bool ptr size_t

fun step :: "pool \<Rightarrow> call \<Rightarrow> pool" where
  "step s (Allocate ok n) = snd (mem_alloc ok s n)"
| "step s (Release p) = mem_free s p"
| "step s (Resize ok p n) = snd (mem_resize ok s p n)"

definition run :: "pool \<Rightarrow> call list \<Rightarrow> pool" where
  "run s cs = foldl step s cs"

section \<open>Invariants of the ledger\<close>

text \<open>
  \<open>partitions start bs c\<close>: read in chain order, the blocks \<open>bs\<close> tile \<open>[start, c)\<close>:
  each offset is where the previous block ended, every length is positive, and the last
  block ends at \<open>c\<close>.  Offsets and lengths are read as natural numbers, so no sum wraps.
\<close>

fun partitions :: "nat \<Rightarrow> MemBlock list \<Rightarrow> nat \<Rightarrow> bool" where
  "partitions start [] c = (start = c)"
| "partitions start (b # bs) c =
     (unat (offset b) = start \<and> 0 < unat (size_b b) \<and>
      partitions (start + unat (size_b b)) bs c)"

definition ledger_ok :: "pool \<Rightarrow> bool" where
  "ledger_ok s = partitions 0 (block_list s) (unat (pool_size s))"

fun no_adjacent_free :: "MemBlock list \<Rightarrow> bool" where
  "no_adjacent_free [] = True"
| "no_adjacent_free [b] = True"
| "no_adjacent_free (a # b # bs) =
     (\<not> (is_free a \<and> is_free b) \<and> no_adjacent_free (b # bs))"

section \<open>Release, in the words of the specification\<close>

text \<open>
  These three definitions follow section 4.3 of the specification, not the code; the
  code's \<open>mem_free\<close> is compared with them below.  Merging with the next descriptor
  absorbs its length and drops it from the chain; merging with the previous descriptor
  absorbs the current descriptor's length into it and drops the current one.  A release
  is a no-op on a null address, on an address that matches no descriptor's offset, and
  on a descriptor that is already free; otherwise it marks the descriptor free, then
  merges with the next one, then with the previous one.
\<close>

fun spec_merge_next :: "MemBlock \<Rightarrow> MemBlock list \<Rightarrow> MemBlock list" where
  "spec_merge_next b [] = [b]"
| "spec_merge_next b (nx # rest) =
     (if is_free nx then b\<lparr>size_b := size_b b + size_b nx\<rparr> # rest else b # nx # rest)"

fun spec_merge_prev :: "MemBlock list \<Rightarrow> MemBlock list \<Rightarrow> MemBlock list" where
  "spec_merge_prev pre [] = pre"
| "spec_merge_prev pre (b # rest) =
     (if pre \<noteq> [] \<and> is_free (last pre)
      then butlast pre @ (last pre)\<lparr>size_b := size_b (last pre) + size_b b\<rparr> # rest
      else pre @ b # rest)"

definition spec_release :: "MemBlock list \<Rightarrow> ptr \<Rightarrow> MemBlock list" where
  "spec_release bs a =
     (case a of
        None \<Rightarrow> bs
      | Some off \<Rightarrow>
          (case dropWhile (\<lambda>b. offset b \<noteq> off) bs of
             [] \<Rightarrow> bs
           | b # post \<Rightarrow>
               if is_free b then bs
               else spec_merge_prev (takeWhile (\<lambda>b. offset b \<noteq> off) bs)
                      (spec_merge_next (b\<lparr>is_free := True\<rparr>) post)))"

section \<open>Example states\<close>

definition zero_bytes :: arena where
  "zero_bytes = (\<lambda>_. 0)"

text \<open>The pool right after \<^verbatim>\<open>mem_init(100)\<close>.\<close>

definition pool100 :: pool where
  "pool100 = \<lparr>memory_pool = zero_bytes, pool_size = 100,
              block_list = create_initial_block 100\<rparr>"

text \<open>
  A fragmented pool: \<^verbatim>\<open>a = mem_alloc(30); b = mem_alloc(20); mem_free(a)\<close> leaves a free
  block of 30 bytes, a used block of 20 and a free block of 50.
\<close>

definition pool_frag :: pool where
  "pool_frag = run pool100 [Allocate True 30, Allocate True 20, Release (Some 0)]"

text \<open>The pool after \<^verbatim>\<open>mem_init(100); a = mem_alloc(50)\<close>: a used half and a free half.\<close>

definition pool_half :: pool where
  "pool_half = run pool100 [Allocate True 50]"

section \<open>Machine arithmetic without wrap-around\<close>

lemma unat_sum: "unat (a::size_t) + unat b < 2 ^ 64 \<Longrightarrow> unat (a + b) = unat a + unat b"
  using unat_add_lem [of a b] by simp

lemma unat_diff: "(n::size_t) \<le> sz \<Longrightarrow> unat (sz - n) = unat sz - unat n"
  by (simp add: unat_sub)

lemma unat_pos: "(n::size_t) \<noteq> 0 \<Longrightarrow> 0 < unat n"
  by (simp add: unat_gt_0)

section \<open>The partition is kept by every operation\<close>

lemma partitions_le: "partitions st bs c \<Longrightarrow> st \<le> c"
proof (induction bs arbitrary: st)
  case Nil
  then show ?case by simp
next
  case (Cons b bs)
  from Cons.prems have "partitions (st + unat (size_b b)) bs c" by simp
  from Cons.IH [OF this] show ?case by simp
qed

lemma partitions_append:
  "partitions st (xs @ ys) c \<longleftrightarrow> (\<exists>m. partitions st xs m \<and> partitions m ys c)"
  by (induction xs arbitrary: st) auto

lemma split_partitions:
  assumes "n \<noteq> 0" "n < size_b cur" "c < 2 ^ 64" "partitions st (cur # rest) c"
  shows "partitions st (cur\<lparr>size_b := n\<rparr> # \<lparr>offset = offset cur + n, size_b = size_b cur - n, is_free = True\<rparr> # rest) c"
proof -
  from assms(4) have o: "unat (offset cur) = st" and r: "partitions (st + unat (size_b cur)) rest c"
    by simp_all
  from partitions_le [OF r] assms(3) have b: "st + unat (size_b cur) < 2 ^ 64" by simp
  from assms(2) have lt: "unat n < unat (size_b cur)" by (simp add: word_less_nat_alt)
  have 1: "unat (offset cur + n) = st + unat n"
    using unat_sum [of "offset cur" n] o b lt by simp
  have 2: "unat (size_b cur - n) = unat (size_b cur) - unat n"
    using assms(2) by (simp add: unat_diff)
  show ?thesis using o r 1 2 lt unat_pos [OF assms(1)] by simp
qed

lemma merge_partitions:
  assumes "c < 2 ^ 64" "partitions st (a # b # rest) c"
  shows "partitions st (a\<lparr>size_b := size_b a + size_b b\<rparr> # rest) c"
proof -
  from assms(2) have o: "unat (offset a) = st" and pa: "0 < unat (size_b a)"
    and r: "partitions (st + unat (size_b a) + unat (size_b b)) rest c"
    by simp_all
  from partitions_le [OF r] assms(1) have "unat (size_b a) + unat (size_b b) < 2 ^ 64" by simp
  then have "unat (size_b a + size_b b) = unat (size_b a) + unat (size_b b)"
    by (rule unat_sum)
  then show ?thesis using o pa r by (simp add: add.assoc)
qed

lemma alloc_scan_partitions:
  "n \<noteq> 0 \<Longrightarrow> c < 2 ^ 64 \<Longrightarrow> partitions st bs c \<Longrightarrow> partitions st (snd (alloc_scan ok n bs)) c"
proof (induction bs arbitrary: st)
  case Nil
  then show ?case by simp
next
  case (Cons cur rest)
  show ?case
  proof (cases "\<not> is_free cur \<or> size_b cur < n")
    case True
    then show ?thesis using Cons by (simp add: case_prod_unfold)
  next
    case False
    show ?thesis
    proof (cases "n < size_b cur \<and> ok")
      case True
      with split_partitions [OF Cons.prems(1) _ Cons.prems(2,3), of ] False
      show ?thesis by simp
    next
      case False
      then show ?thesis using Cons.prems \<open>\<not> (\<not> is_free cur \<or> size_b cur < n)\<close> by auto
    qed
  qed
qed


lemma free_scan_partitions:
  "c < 2 ^ 64 \<Longrightarrow> partitions st (front @ prev_list prev @ bs) c \<Longrightarrow>
   partitions st (free_scan off front prev bs) c"
proof (induction bs arbitrary: front prev)
  case Nil
  then show ?case by simp
next
  case (Cons cur rest)
  show ?case
  proof (cases "offset cur \<noteq> off")
    case True
    have "partitions st ((front @ prev_list prev) @ prev_list (Some cur) @ rest) c"
      using Cons.prems(2) by simp
    from Cons.IH [OF Cons.prems(1) this] True show ?thesis by simp
  next
    case match: False
    show ?thesis
    proof (cases "is_free cur")
      case True
      with match Cons.prems show ?thesis by simp
    next
      case used: False
      from Cons.prems(2) obtain m where
        fr: "partitions st front m" and tl: "partitions m (prev_list prev @ cur # rest) c"
        unfolding partitions_append by blast
      define cur1 where "cur1 = cur\<lparr>is_free := True\<rparr>"
      define step4 where "step4 =
        (case rest of [] \<Rightarrow> (cur1, rest)
         | nx # rest' \<Rightarrow> if is_free nx then (cur1\<lparr>size_b := size_b cur1 + size_b nx\<rparr>, rest')
                          else (cur1, rest))"
      have tl1: "partitions m (prev_list prev @ cur1 # rest) c"
        using tl by (cases prev) (simp_all add: cur1_def)
      have tl2: "partitions m (prev_list prev @ fst step4 # snd step4) c"
      proof (cases rest)
        case Nil
        then show ?thesis using tl1 by (simp add: step4_def)
      next
        case (Cons nx rest')
        show ?thesis
        proof (cases "is_free nx")
          case True
          have "partitions m (prev_list prev @ cur1\<lparr>size_b := size_b cur1 + size_b nx\<rparr> # rest') c"
          proof (cases prev)
            case None
            then show ?thesis
              using merge_partitions [OF Cons.prems(1), of m cur1 nx rest'] tl1 Cons by simp
          next
            case (Some p)
            with tl1 Cons have "partitions (m + unat (size_b p)) (cur1 # nx # rest') c" by simp
            from merge_partitions [OF Cons.prems(1) this] Some tl1 show ?thesis by simp
          qed
          then show ?thesis using Cons True by (simp add: step4_def)
        next
          case False
          then show ?thesis using tl1 Cons by (simp add: step4_def)
        qed
      qed
      have res: "free_scan off front prev (cur # rest) =
        (case prev of None \<Rightarrow> front @ fst step4 # snd step4
         | Some p \<Rightarrow> if is_free p
             then front @ p\<lparr>size_b := size_b p + size_b (fst step4)\<rparr> # snd step4
             else front @ p # fst step4 # snd step4)"
        unfolding step4_def cur1_def using match used by (simp add: case_prod_unfold Let_def)
      show ?thesis
      proof (cases prev)
        case None
        then show ?thesis using res fr tl2 by (auto simp: partitions_append)
      next
        case (Some p)
        show ?thesis
        proof (cases "is_free p")
          case True
          from tl2 Some have "partitions m (p # fst step4 # snd step4) c" by simp
          from merge_partitions [OF Cons.prems(1) this] res Some True fr
          show ?thesis by (auto simp: partitions_append)
        next
          case False
          then show ?thesis using res Some fr tl2 by (auto simp: partitions_append)
        qed
      qed
    qed
  qed
qed

lemma resize_scan_partitions:
  "n \<noteq> 0 \<Longrightarrow> c < 2 ^ 64 \<Longrightarrow> partitions st bs c \<Longrightarrow>
   partitions st (snd (resize_scan ok off n bs)) c"
proof (induction bs arbitrary: st)
  case Nil
  then show ?case by simp
next
  case (Cons cur rest)
  show ?case
  proof (cases "offset cur \<noteq> off")
    case True
    then show ?thesis using Cons by (simp add: case_prod_unfold)
  next
    case match: False
    show ?thesis
    proof (cases "n \<le> size_b cur")
      case True
      show ?thesis
      proof (cases "n < size_b cur \<and> ok")
        case True
        with split_partitions [OF Cons.prems(1) _ Cons.prems(2,3)] match \<open>n \<le> size_b cur\<close>
        show ?thesis by simp
      next
        case False
        then show ?thesis using match True Cons.prems by auto
      qed
    next
      case small: False
      show ?thesis
      proof (cases rest)
        case Nil
        then show ?thesis using match small Cons.prems by simp
      next
        case (Cons nx rest')
        show ?thesis
        proof (cases "is_free nx \<and> n \<le> size_b cur + size_b nx")
          case False
          then show ?thesis using match small Cons Cons.prems by auto
        next
          case True
          define cur1 where "cur1 = cur\<lparr>size_b := size_b cur + size_b nx\<rparr>"
          have m: "partitions st (cur1 # rest') c"
            using merge_partitions [OF Cons.prems(2), of st cur nx rest'] Cons.prems(3) Cons
            by (simp add: cur1_def)
          show ?thesis
          proof (cases "n < size_b cur1 \<and> ok")
            case True
            from split_partitions [OF Cons.prems(1) _ Cons.prems(2) m] True
            have "partitions st (cur1\<lparr>size_b := n\<rparr> # \<lparr>offset = offset cur1 + n,
                     size_b = size_b cur1 - n, is_free = True\<rparr> # rest') c" by simp
            then show ?thesis
              using match small Cons \<open>is_free nx \<and> n \<le> size_b cur + size_b nx\<close> True
              by (simp add: cur1_def Let_def)
          next
            case False
            then show ?thesis
              using match small Cons \<open>is_free nx \<and> n \<le> size_b cur + size_b nx\<close> m
              by (auto simp: cur1_def Let_def)
          qed
        qed
      qed
    qed
  qed
qed


lemma unat_pool_size: "unat (pool_size s) < 2 ^ 64"
  using unsigned_less [of "pool_size s", where 'a = nat] by simp

lemma mem_alloc_ledger_ok: "ledger_ok s \<Longrightarrow> ledger_ok (snd (mem_alloc ok s n))"
  using alloc_scan_partitions [where n = n and c = "unat (pool_size s)" and st = 0
      and bs = "block_list s" and ok = ok] unat_pool_size [of s]
  by (simp add: ledger_ok_def mem_alloc_def case_prod_unfold)

lemma mem_free_ledger_ok: "ledger_ok s \<Longrightarrow> ledger_ok (mem_free s p)"
  using free_scan_partitions [where c = "unat (pool_size s)" and st = 0 and front = "[]"
      and prev = None and bs = "block_list s"] unat_pool_size [of s]
  by (simp add: ledger_ok_def mem_free_def split: option.splits)

lemma mem_free_pool_size: "pool_size (mem_free s p) = pool_size s"
  by (simp add: mem_free_def split: option.splits)

lemma mem_alloc_pool_size: "pool_size (snd (mem_alloc ok s n)) = pool_size s"
  by (simp add: mem_alloc_def case_prod_unfold)

lemma mem_resize_ledger_ok:
  assumes "ledger_ok s"
  shows "ledger_ok (snd (mem_resize ok s p n))"
proof (cases p)
  case None
  then show ?thesis using mem_alloc_ledger_ok [OF assms] by (simp add: mem_resize_def)
next
  case (Some off)
  show ?thesis
  proof (cases "n = 0")
    case True
    then show ?thesis using Some mem_free_ledger_ok [OF assms] by (simp add: mem_resize_def)
  next
    case False
    define s' where "s' = s\<lparr>block_list := snd (resize_scan ok off n (block_list s))\<rparr>"
    have ok': "ledger_ok s'"
      using resize_scan_partitions [where n = n and c = "unat (pool_size s)" and st = 0
          and bs = "block_list s" and ok = ok and off = off] unat_pool_size [of s] False assms
      by (simp add: ledger_ok_def s'_def)
    show ?thesis
    proof (cases "fst (resize_scan ok off n (block_list s))")
      case (Done r)
      then show ?thesis using Some False ok'
        by (simp add: mem_resize_def s'_def case_prod_unfold)
    next
      case NotFound
      then show ?thesis using Some False ok'
        by (simp add: mem_resize_def s'_def case_prod_unfold)
    next
      case (Relocate old_size)
      obtain r s1 where a: "mem_alloc ok s' n = (r, s1)" by (cases "mem_alloc ok s' n")
      with mem_alloc_ledger_ok [OF ok', of ok n] have s1: "ledger_ok s1" by simp
      show ?thesis
      proof (cases r)
        case None
        then show ?thesis using Some False Relocate a s1
          by (simp add: mem_resize_def s'_def case_prod_unfold)
      next
        case (Some new_off)
        define s2 where
          "s2 = s1\<lparr>memory_pool := memcpy (memory_pool s1) new_off off (min old_size n)\<rparr>"
        have "ledger_ok s2" using s1 by (simp add: ledger_ok_def s2_def)
        from mem_free_ledger_ok [OF this, of p] show ?thesis
          using Some \<open>p = Some off\<close> False Relocate a
          by (simp add: mem_resize_def s'_def s2_def case_prod_unfold)
      qed
    qed
  qed
qed

lemma step_ledger_ok: "ledger_ok s \<Longrightarrow> ledger_ok (step s c)"
  by (cases c) (simp_all add: mem_alloc_ledger_ok mem_free_ledger_ok mem_resize_ledger_ok)

lemma run_ledger_ok: "ledger_ok s \<Longrightarrow> ledger_ok (run s cs)"
  unfolding run_def by (induction cs arbitrary: s) (simp_all add: step_ledger_ok)

lemma mem_resize_pool_size: "pool_size (snd (mem_resize ok s p n)) = pool_size s"
  by (simp add: mem_resize_def mem_alloc_def mem_free_def case_prod_unfold
      split: option.splits resize_step.splits)

lemma step_pool_size: "pool_size (step s c) = pool_size s"
  by (cases c) (simp_all add: mem_alloc_pool_size mem_free_pool_size mem_resize_pool_size)

lemma run_pool_size: "pool_size (run s cs) = pool_size s"
  unfolding run_def by (induction cs arbitrary: s) (simp_all add: step_pool_size)

lemma partitions_chain:
  "partitions st bs c \<Longrightarrow> bs \<noteq> [] \<Longrightarrow>
   unat (offset (hd bs)) = st \<and>
   (\<forall>i. Suc i < length bs \<longrightarrow>
        unat (offset (bs ! Suc i)) = unat (offset (bs ! i)) + unat (size_b (bs ! i))) \<and>
   (\<forall>b \<in> set bs. 0 < unat (size_b b)) \<and>
   unat (offset (last bs)) + unat (size_b (last bs)) = c"
proof (induction bs arbitrary: st)
  case Nil
  then show ?case by simp
next
  case (Cons b bs)
  show ?case
  proof (cases bs)
    case Nil
    then show ?thesis using Cons.prems by simp
  next
    case (Cons b' bs')
    then have ne: "bs \<noteq> []" by simp
    from Cons.prems have tl: "partitions (st + unat (size_b b)) bs c"
      and hd: "unat (offset b) = st" "0 < unat (size_b b)" by simp_all
    note ih = Cons.IH [OF tl ne]
    have chain: "unat (offset ((b # bs) ! Suc i)) =
        unat (offset ((b # bs) ! i)) + unat (size_b ((b # bs) ! i))"
      if "Suc i < length (b # bs)" for i
    proof (cases i)
      case 0
      then show ?thesis using ih hd ne by (simp add: hd_conv_nth)
    next
      case (Suc j)
      then show ?thesis using ih that by simp
    qed
    show ?thesis using ih hd ne chain by simp
  qed
qed

section \<open>The claims\<close>

text \<open>
  C1.  After \<^verbatim>\<open>mem_init(c)\<close> with a positive capacity \<open>c\<close> (the capacity of
  \<^verbatim>\<open>InitPool\<close> is a positive integer), and after every sequence of
  \<^verbatim>\<open>mem_alloc\<close>, \<^verbatim>\<open>mem_free\<close> and \<^verbatim>\<open>mem_resize\<close> calls, with any arguments
  and any outcome of the host's \<^verbatim>\<open>malloc\<close>, the ledger read in chain order exactly partitions \<open>[0, c)\<close>: it is not
  empty, the first descriptor has offset 0, each descriptor starts where the previous
  one ends, every length is positive, and the last descriptor ends at \<open>c\<close>.
\<close>

theorem ledger_partitions_arena:
  assumes "mem_init pool_ok list_ok bytes c = Some s0" and "c \<noteq> 0"
  shows "partitions 0 (block_list (run s0 calls)) (unat c) \<and>
    (let bs = block_list (run s0 calls) in
       bs \<noteq> [] \<and> offset (hd bs) = 0 \<and>
       (\<forall>i. Suc i < length bs \<longrightarrow>
            unat (offset (bs ! Suc i)) = unat (offset (bs ! i)) + unat (size_b (bs ! i))) \<and>
       (\<forall>b \<in> set bs. 0 < unat (size_b b)) \<and>
       unat (offset (last bs)) + unat (size_b (last bs)) = unat c)"
proof -
  from assms(1) have s0: "pool_size s0 = c" "block_list s0 = create_initial_block c"
    by (auto simp: mem_init_def split: if_splits)
  have "ledger_ok s0"
    using assms(2) by (simp add: ledger_ok_def s0 create_initial_block_def unat_gt_0)
  from run_ledger_ok [OF this, of calls]
  have p: "partitions 0 (block_list (run s0 calls)) (unat c)"
    by (simp add: ledger_ok_def run_pool_size s0)
  have "0 < unat c" using assms(2) by (simp add: unat_gt_0)
  with p have ne: "block_list (run s0 calls) \<noteq> []" by auto
  from partitions_chain [OF p ne] p ne show ?thesis
    by (simp add: Let_def unat_eq_0)
qed

theorem ledger_partitions_arena_witness:
  "mem_init True True zero_bytes 100 = Some pool100 \<and> (100 :: size_t) \<noteq> 0 \<and>
   partitions 0
     (block_list (run pool100
        [Allocate True 30, Allocate True 20, Release (Some 0), Resize True (Some 30) 40]))
     (unat (100 :: size_t))"
proof -
  have h1: "mem_init True True zero_bytes 100 = Some pool100"
    by (simp add: mem_init_def pool100_def)
  have h2: "(100 :: size_t) \<noteq> 0" by simp
  from ledger_partitions_arena [OF h1 h2] h1 h2 show ?thesis by blast
qed

subsection \<open>Zero-size requests\<close>

lemma first_free_find: "first_free bs = map_option offset (List.find is_free bs)"
  by (induction bs) simp_all

lemma first_free_skip:
  "\<forall>x \<in> set pre. \<not> is_free x \<Longrightarrow> first_free (pre @ rest) = first_free rest"
  by (induction pre) simp_all

text \<open>
  C7.  In every ledger state \<^verbatim>\<open>mem_alloc(0)\<close> returns the address of the first free
  descriptor in chain order and changes nothing: the pool after the call is the pool
  before it (every offset, length and flag), so a second zero-size call returns the same
  address.  Spelled out: when the ledger is \<open>pre @ b # post\<close> with no free block in
  \<open>pre\<close> and \<open>b\<close> free, the result is the address of \<open>b\<close>, and \<open>b\<close> stays free.
\<close>

theorem mem_alloc_zero_frame:
  "mem_alloc ok s 0 = (map_option offset (List.find is_free (block_list s)), s) \<and>
   mem_alloc ok' (snd (mem_alloc ok s 0)) 0 = mem_alloc ok s 0 \<and>
   (\<forall>pre b post.
      block_list s = pre @ b # post \<and> (\<forall>x \<in> set pre. \<not> is_free x) \<and> is_free b \<longrightarrow>
      mem_alloc ok s 0 = (Some (offset b), s))"
  by (auto simp: mem_alloc_def first_free_find [symmetric] first_free_skip)

theorem mem_alloc_zero_frame_witness:
  "block_list (run pool100 [Allocate True 30]) =
     [\<lparr>offset = 0, size_b = 30, is_free = False\<rparr>] @
     \<lparr>offset = 30, size_b = 70, is_free = True\<rparr> # [] \<and>
   mem_alloc True (run pool100 [Allocate True 30]) 0 =
     (Some 30, run pool100 [Allocate True 30])"
proof -
  have bl: "block_list (run pool100 [Allocate True 30]) =
     [\<lparr>offset = 0, size_b = 30, is_free = False\<rparr>] @
     \<lparr>offset = 30, size_b = 70, is_free = True\<rparr> # []"
    by (simp add: run_def pool100_def mem_alloc_def create_initial_block_def)
  from mem_alloc_zero_frame [of True "run pool100 [Allocate True 30]" True]
  have "block_list (run pool100 [Allocate True 30]) =
      [\<lparr>offset = 0, size_b = 30, is_free = False\<rparr>] @
      \<lparr>offset = 30, size_b = 70, is_free = True\<rparr> # [] \<and>
      (\<forall>x \<in> set [\<lparr>offset = 0, size_b = 30, is_free = False\<rparr>]. \<not> is_free x) \<and>
      is_free \<lparr>offset = 30, size_b = 70, is_free = True\<rparr> \<longrightarrow>
      mem_alloc True (run pool100 [Allocate True 30]) 0 =
        (Some (offset \<lparr>offset = 30, size_b = 70, is_free = True\<rparr>),
         run pool100 [Allocate True 30])"
    by blast
  with bl show ?thesis by simp
qed

text \<open>
  C10.  \<^verbatim>\<open>mem_alloc(0)\<close> returns \<^verbatim>\<open>NULL\<close> when the ledger holds no free descriptor,
  as when every byte of the arena is allocated; the pool is unchanged.
\<close>

theorem mem_alloc_zero_no_free:
  "\<forall>b \<in> set (block_list s). \<not> is_free b \<Longrightarrow> mem_alloc ok s 0 = (None, s)"
  using first_free_skip [of "block_list s" "[]"] by (simp add: mem_alloc_def)

theorem mem_alloc_zero_no_free_witness:
  "block_list (run pool100 [Allocate True 100]) =
     [\<lparr>offset = 0, size_b = 100, is_free = False\<rparr>] \<and>
   mem_alloc True (run pool100 [Allocate True 100]) 0 =
     (None, run pool100 [Allocate True 100])"
proof -
  have bl: "block_list (run pool100 [Allocate True 100]) =
     [\<lparr>offset = 0, size_b = 100, is_free = False\<rparr>]"
    by (simp add: run_def pool100_def mem_alloc_def create_initial_block_def)
  then have "\<forall>b \<in> set (block_list (run pool100 [Allocate True 100])). \<not> is_free b"
    by simp
  from mem_alloc_zero_no_free [OF this] bl show ?thesis by simp
qed

subsection \<open>The first two tests of mem\_resize\<close>

text \<open>
  C6, as the code has it.  \<^verbatim>\<open>mem_resize(NULL, n)\<close> is \<^verbatim>\<open>mem_alloc(n)\<close> for every
  \<open>n\<close>, zero included: same result, same pool.  For every address \<open>x\<close> other than
  \<^verbatim>\<open>NULL\<close>, \<^verbatim>\<open>mem_resize(x, 0)\<close> is \<^verbatim>\<open>mem_free(x)\<close> followed by returning
  \<^verbatim>\<open>NULL\<close>.
\<close>

theorem mem_resize_null_or_zero:
  "mem_resize ok s None n = mem_alloc ok s n \<and>
   mem_resize ok s (Some x) 0 = (None, mem_free s (Some x))"
  by (simp add: mem_resize_def)

text \<open>
  The second half does not hold for \<^verbatim>\<open>NULL\<close>: the test \<^verbatim>\<open>if (!ptr)\<close> comes first, so
  \<^verbatim>\<open>mem_resize(NULL, 0)\<close> is \<^verbatim>\<open>mem_alloc(0)\<close>, which on a fresh pool returns the
  address of offset 0 and not \<^verbatim>\<open>NULL\<close>.
\<close>

theorem mem_resize_null_zero_counterexample:
  "mem_resize True pool100 None 0 = (Some 0, pool100) \<and>
   mem_resize True pool100 None 0 \<noteq> (None, mem_free pool100 None)"
  by (simp add: mem_resize_def mem_alloc_def mem_free_def pool100_def create_initial_block_def)

subsection \<open>First fit\<close>

lemma pool_frag_eq:
  "pool_frag = \<lparr>memory_pool = zero_bytes, pool_size = 100, block_list =
     [\<lparr>offset = 0, size_b = 30, is_free = True\<rparr>,
      \<lparr>offset = 30, size_b = 20, is_free = False\<rparr>,
      \<lparr>offset = 50, size_b = 50, is_free = True\<rparr>]\<rparr>"
  by (simp add: pool_frag_def run_def pool100_def mem_alloc_def mem_free_def
      create_initial_block_def)

lemma alloc_scan_skip:
  "\<forall>x \<in> set pre. \<not> is_free x \<or> size_b x < n \<Longrightarrow>
   alloc_scan ok n (pre @ rest) =
     (fst (alloc_scan ok n rest), pre @ snd (alloc_scan ok n rest))"
  by (induction pre) (simp_all add: case_prod_unfold)

lemma partitions_offset_less:
  "partitions st bs m \<Longrightarrow> x \<in> set bs \<Longrightarrow> unat (offset x) < m"
proof (induction bs arbitrary: st)
  case Nil
  then show ?case by simp
next
  case (Cons b bs)
  from Cons.prems(1) have tl: "partitions (st + unat (size_b b)) bs m" by simp
  show ?case
  proof (cases "x = b")
    case True
    then show ?thesis using Cons.prems(1) partitions_le [OF tl] by simp
  next
    case False
    with Cons.prems(2) have "x \<in> set bs" by simp
    from Cons.IH [OF tl this] show ?thesis .
  qed
qed

lemma partitions_before:
  assumes "partitions st (pre @ b # post) c" and "x \<in> set pre"
  shows "unat (offset x) < unat (offset b)"
proof -
  from assms(1) obtain m where "partitions st pre m" and "partitions m (b # post) c"
    unfolding partitions_append by blast
  then show ?thesis using partitions_offset_less [OF _ assms(2)] by simp
qed

lemma partitions_block_end:
  assumes "c < 2 ^ 64" and "partitions st (pre @ b # post) c"
  shows "unat (offset b) + unat (size_b b) < 2 ^ 64"
proof -
  from assms(2) obtain m where "partitions m (b # post) c"
    unfolding partitions_append by blast
  then have "unat (offset b) = m" and "partitions (m + unat (size_b b)) post c" by simp_all
  then show ?thesis using partitions_le [of "m + unat (size_b b)" post c] assms(1) by simp
qed

text \<open>
  C3.  For every size \<open>n > 0\<close>, \<^verbatim>\<open>mem_alloc(n)\<close> takes the first descriptor in chain
  order that is free and has length \<open>\<ge> n\<close>.  If there is none, the result is
  \<^verbatim>\<open>NULL\<close> and the pool is unchanged.  Otherwise let the ledger be \<open>pre @ b # post\<close>,
  no block of \<open>pre\<close> fitting and \<open>b\<close> fitting: on an exact fit \<open>b\<close> is marked used and
  its address returned; on a larger fit, when the \<^verbatim>\<open>malloc\<close> of the new descriptor
  succeeds, \<open>b\<close> is shrunk to \<open>n\<close> and marked used, a free descriptor at
  \<open>offset b + n\<close> of length \<open>size_b b - n\<close> is inserted right after it, and the address
  of \<open>b\<close> is returned; when that \<^verbatim>\<open>malloc\<close> fails, the result is \<^verbatim>\<open>NULL\<close> and the
  pool is unchanged.  In a ledger that partitions the arena, chain order is ascending
  offset order (every block of \<open>pre\<close> lies below \<open>b\<close>), and neither the new offset nor
  the new length wraps around.
\<close>

theorem mem_alloc_first_fit:
  assumes "n \<noteq> 0"
  shows
   "((\<forall>x \<in> set (block_list s). \<not> is_free x \<or> size_b x < n) \<longrightarrow>
       mem_alloc ok s n = (None, s)) \<and>
    (\<forall>pre b post.
       block_list s = pre @ b # post \<and>
       (\<forall>x \<in> set pre. \<not> is_free x \<or> size_b x < n) \<and> is_free b \<and> n \<le> size_b b \<longrightarrow>
       (size_b b = n \<longrightarrow>
          mem_alloc ok s n =
            (Some (offset b), s\<lparr>block_list := pre @ b\<lparr>is_free := False\<rparr> # post\<rparr>)) \<and>
       (n < size_b b \<and> ok \<longrightarrow>
          mem_alloc ok s n =
            (Some (offset b),
             s\<lparr>block_list :=
                 pre @ b\<lparr>size_b := n, is_free := False\<rparr>
                 # \<lparr>offset = offset b + n, size_b = size_b b - n, is_free = True\<rparr>
                 # post\<rparr>)) \<and>
       (n < size_b b \<and> \<not> ok \<longrightarrow> mem_alloc ok s n = (None, s)) \<and>
       (ledger_ok s \<longrightarrow>
          (\<forall>x \<in> set pre. offset x < offset b) \<and>
          unat (offset b + n) = unat (offset b) + unat n \<and>
          unat (size_b b - n) = unat (size_b b) - unat n))"
proof (intro conjI allI impI)
  assume "\<forall>x \<in> set (block_list s). \<not> is_free x \<or> size_b x < n"
  from alloc_scan_skip [OF this, of ok "[]"] assms show "mem_alloc ok s n = (None, s)"
    by (simp add: mem_alloc_def)
next
  fix pre b post
  assume h: "block_list s = pre @ b # post \<and>
       (\<forall>x \<in> set pre. \<not> is_free x \<or> size_b x < n) \<and> is_free b \<and> n \<le> size_b b"
  then have sk: "alloc_scan ok n (block_list s) =
     (fst (alloc_scan ok n (b # post)), pre @ snd (alloc_scan ok n (b # post)))"
    using alloc_scan_skip [of pre n ok "b # post"] by simp
  have fit: "\<not> (\<not> is_free b \<or> size_b b < n)" using h by auto
  {
    assume "size_b b = n"
    then show "mem_alloc ok s n =
            (Some (offset b), s\<lparr>block_list := pre @ b\<lparr>is_free := False\<rparr> # post\<rparr>)"
      using assms sk fit by (simp add: mem_alloc_def)
  }
  {
    assume "n < size_b b \<and> ok"
    then show "mem_alloc ok s n =
            (Some (offset b),
             s\<lparr>block_list :=
                 pre @ b\<lparr>size_b := n, is_free := False\<rparr>
                 # \<lparr>offset = offset b + n, size_b = size_b b - n, is_free = True\<rparr>
                 # post\<rparr>)"
      using assms sk fit by (simp add: mem_alloc_def)
  }
  {
    assume "n < size_b b \<and> \<not> ok"
    then show "mem_alloc ok s n = (None, s)"
      using assms sk fit h by (simp add: mem_alloc_def)
  }
  {
    assume ok: "ledger_ok s"
    then have p: "partitions 0 (pre @ b # post) (unat (pool_size s))"
      using h by (simp add: ledger_ok_def)
    show "\<forall>x \<in> set pre. offset x < offset b"
      using partitions_before [OF p] by (simp add: word_less_nat_alt)
    have le: "unat n \<le> unat (size_b b)" using h by (simp add: word_le_nat_alt)
    from partitions_block_end [OF unat_pool_size p] le
    show "unat (offset b + n) = unat (offset b) + unat n"
      using unat_sum [of "offset b" n] by simp
    show "unat (size_b b - n) = unat (size_b b) - unat n"
      using h by (simp add: unat_diff)
  }
qed

theorem mem_alloc_first_fit_witness:
  "(40 :: size_t) \<noteq> 0 \<and>
   block_list pool_frag =
     [\<lparr>offset = 0, size_b = 30, is_free = True\<rparr>, \<lparr>offset = 30, size_b = 20, is_free = False\<rparr>]
     @ \<lparr>offset = 50, size_b = 50, is_free = True\<rparr> # [] \<and>
   ledger_ok pool_frag \<and>
   mem_alloc True pool_frag 40 =
     (Some 50,
      pool_frag\<lparr>block_list :=
        [\<lparr>offset = 0, size_b = 30, is_free = True\<rparr>,
         \<lparr>offset = 30, size_b = 20, is_free = False\<rparr>,
         \<lparr>offset = 50, size_b = 40, is_free = False\<rparr>,
         \<lparr>offset = 90, size_b = 10, is_free = True\<rparr>]\<rparr>) \<and>
   unat (50 + 40 :: size_t) = unat (50 :: size_t) + unat (40 :: size_t)"
proof -
  have n: "(40 :: size_t) \<noteq> 0" by simp
  have bl: "block_list pool_frag =
     [\<lparr>offset = 0, size_b = 30, is_free = True\<rparr>, \<lparr>offset = 30, size_b = 20, is_free = False\<rparr>]
     @ \<lparr>offset = 50, size_b = 50, is_free = True\<rparr> # []"
    by (simp add: pool_frag_eq)
  have lo: "ledger_ok pool_frag" by (simp add: pool_frag_eq ledger_ok_def)
  from mem_alloc_first_fit [OF n, of pool_frag True]
  have "block_list pool_frag =
      [\<lparr>offset = 0, size_b = 30, is_free = True\<rparr>, \<lparr>offset = 30, size_b = 20, is_free = False\<rparr>]
      @ \<lparr>offset = 50, size_b = 50, is_free = True\<rparr> # [] \<and>
      (\<forall>x \<in> set [\<lparr>offset = 0, size_b = 30, is_free = True\<rparr>,
                  \<lparr>offset = 30, size_b = 20, is_free = False\<rparr>].
          \<not> is_free x \<or> size_b x < 40) \<and>
      is_free \<lparr>offset = 50, size_b = 50, is_free = True\<rparr> \<and>
      40 \<le> size_b \<lparr>offset = 50, size_b = 50, is_free = True\<rparr> \<longrightarrow>
      (40 < size_b \<lparr>offset = 50, size_b = 50, is_free = True\<rparr> \<and> True \<longrightarrow>
         mem_alloc True pool_frag 40 =
           (Some (offset \<lparr>offset = 50, size_b = 50, is_free = True\<rparr>),
            pool_frag\<lparr>block_list :=
              [\<lparr>offset = 0, size_b = 30, is_free = True\<rparr>,
               \<lparr>offset = 30, size_b = 20, is_free = False\<rparr>]
              @ \<lparr>offset = 50, size_b = 50, is_free = True\<rparr>\<lparr>size_b := 40, is_free := False\<rparr>
              # \<lparr>offset = offset \<lparr>offset = 50, size_b = 50, is_free = True\<rparr> + 40,
                  size_b = size_b \<lparr>offset = 50, size_b = 50, is_free = True\<rparr> - 40,
                  is_free = True\<rparr>
              # []\<rparr>)) \<and>
      (ledger_ok pool_frag \<longrightarrow>
         unat (offset \<lparr>offset = 50, size_b = 50, is_free = True\<rparr> + 40) =
         unat (offset \<lparr>offset = 50, size_b = 50, is_free = True\<rparr>) + unat (40 :: size_t))"
    by blast
  with n bl lo show ?thesis by simp
qed

subsection \<open>Release\<close>

lemma free_scan_skip:
  "\<forall>x \<in> set pre. offset x \<noteq> off \<Longrightarrow>
   free_scan off front prev (pre @ rest) =
     (if pre = [] then free_scan off front prev rest
      else free_scan off (front @ prev_list prev @ butlast pre) (Some (last pre)) rest)"
  by (induction pre arbitrary: front prev) simp_all

lemma free_scan_nomatch:
  assumes "\<forall>x \<in> set bs. offset x \<noteq> off"
  shows "free_scan off [] None bs = bs"
  using free_scan_skip [OF assms, of "[]" None "[]"] by simp

lemma free_scan_here:
  assumes "offset b = off" and "prev = None \<longrightarrow> front = []"
  shows "free_scan off front prev (b # post) =
     (if is_free b then front @ prev_list prev @ b # post
      else spec_merge_prev (front @ prev_list prev)
             (spec_merge_next (b\<lparr>is_free := True\<rparr>) post))"
proof (cases "is_free b")
  case True
  then show ?thesis using assms by simp
next
  case False
  show ?thesis
  proof (cases post)
    case Nil
    then show ?thesis using assms False by (cases prev) simp_all
  next
    case (Cons nx rest')
    then show ?thesis using assms False by (cases prev; cases "is_free nx") simp_all
  qed
qed

lemma free_scan_decomp:
  assumes "\<forall>x \<in> set pre. offset x \<noteq> off" and "offset b = off"
  shows "free_scan off [] None (pre @ b # post) =
     (if is_free b then pre @ b # post
      else spec_merge_prev pre (spec_merge_next (b\<lparr>is_free := True\<rparr>) post))"
proof (cases "pre = []")
  case True
  then show ?thesis using free_scan_here [OF assms(2), of None "[]" post] by simp
next
  case False
  have "free_scan off [] None (pre @ b # post) =
      free_scan off (butlast pre) (Some (last pre)) (b # post)"
    using free_scan_skip [OF assms(1), of "[]" None "b # post"] False by simp
  also have "\<dots> = (if is_free b then butlast pre @ prev_list (Some (last pre)) @ b # post
      else spec_merge_prev (butlast pre @ prev_list (Some (last pre)))
             (spec_merge_next (b\<lparr>is_free := True\<rparr>) post))"
    by (rule free_scan_here [OF assms(2)]) simp
  finally show ?thesis using False by simp
qed

lemma free_scan_spec: "free_scan off [] None bs = spec_release bs (Some off)"
proof (cases "dropWhile (\<lambda>b. offset b \<noteq> off) bs")
  case Nil
  then have "\<forall>x \<in> set bs. offset x \<noteq> off" by (simp add: dropWhile_eq_Nil_conv)
  from free_scan_nomatch [OF this] show ?thesis
    unfolding spec_release_def option.case Nil list.case .
next
  case (Cons b post)
  let ?pre = "takeWhile (\<lambda>b. offset b \<noteq> off) bs"
  have bs: "bs = ?pre @ b # post" using Cons takeWhile_dropWhile_id [of _ bs] by metis
  have pre: "\<forall>x \<in> set ?pre. offset x \<noteq> off" by (auto dest: set_takeWhileD)
  have b: "offset b = off" using hd_dropWhile [of "\<lambda>b. offset b \<noteq> off" bs] Cons by simp
  have "free_scan off [] None (?pre @ b # post) =
     (if is_free b then ?pre @ b # post
      else spec_merge_prev ?pre (spec_merge_next (b\<lparr>is_free := True\<rparr>) post))"
    by (rule free_scan_decomp [OF pre b])
  then show ?thesis using bs Cons by (simp add: spec_release_def)
qed


lemma partitions_offset_ge:
  "partitions st bs c \<Longrightarrow> x \<in> set bs \<Longrightarrow> st \<le> unat (offset x)"
proof (induction bs arbitrary: st)
  case Nil
  then show ?case by simp
next
  case (Cons b bs)
  from Cons.prems(1) have tl: "partitions (st + unat (size_b b)) bs c" by simp
  show ?case
  proof (cases "x = b")
    case True
    then show ?thesis using Cons.prems(1) by simp
  next
    case False
    with Cons.prems(2) have "x \<in> set bs" by simp
    from Cons.IH [OF tl this] show ?thesis by simp
  qed
qed

lemma partitions_after:
  assumes "partitions st (pre @ b # post) c" and "x \<in> set post"
  shows "unat (offset b) < unat (offset x)"
proof -
  from assms(1) obtain m where "partitions m (b # post) c"
    unfolding partitions_append by blast
  then have "unat (offset b) = m" "0 < unat (size_b b)"
    and "partitions (m + unat (size_b b)) post c" by simp_all
  then show ?thesis using partitions_offset_ge [OF _ assms(2)] by fastforce
qed

lemma spec_merge_next_shape:
  "\<exists>b2 rest2. spec_merge_next b1 post = b2 # rest2 \<and> offset b2 = offset b1 \<and>
     is_free b2 = is_free b1 \<and> set rest2 \<subseteq> set post"
  by (cases post) auto

lemma free_scan_twice:
  assumes "partitions st bs c"
  shows "free_scan off [] None (free_scan off [] None bs) = free_scan off [] None bs"
proof (cases "dropWhile (\<lambda>b. offset b \<noteq> off) bs")
  case Nil
  then have "\<forall>x \<in> set bs. offset x \<noteq> off" by (simp add: dropWhile_eq_Nil_conv)
  from free_scan_nomatch [OF this] show ?thesis by simp
next
  case (Cons b post)
  let ?pre = "takeWhile (\<lambda>b. offset b \<noteq> off) bs"
  have bs: "bs = ?pre @ b # post" using Cons takeWhile_dropWhile_id [of _ bs] by metis
  have pre: "\<forall>x \<in> set ?pre. offset x \<noteq> off" by (auto dest: set_takeWhileD)
  have b: "offset b = off" using hd_dropWhile [of "\<lambda>b. offset b \<noteq> off" bs] Cons by simp
  note first = free_scan_decomp [OF pre b, of post]
  show ?thesis
  proof (cases "is_free b")
    case True
    with first bs show ?thesis by simp
  next
    case False
    obtain b2 rest2 where sh: "spec_merge_next (b\<lparr>is_free := True\<rparr>) post = b2 # rest2"
      "offset b2 = off" "is_free b2" "set rest2 \<subseteq> set post"
      using spec_merge_next_shape [of "b\<lparr>is_free := True\<rparr>" post] b by auto
    have post: "\<forall>x \<in> set rest2. offset x \<noteq> off"
    proof
      fix x assume "x \<in> set rest2"
      with sh(4) have "x \<in> set post" by blast
      from partitions_after [of st ?pre b post c x] assms bs this b
      show "offset x \<noteq> off" by auto
    qed
    show ?thesis
    proof (cases "?pre \<noteq> [] \<and> is_free (last ?pre)")
      case True
      let ?p = "(last ?pre)\<lparr>size_b := size_b (last ?pre) + size_b b2\<rparr>"
      have r: "free_scan off [] None bs = butlast ?pre @ ?p # rest2"
        using first False sh(1) True bs by simp
      have "last ?pre \<in> set ?pre" using True by simp
      with pre have "offset ?p \<noteq> off" by simp
      moreover have "\<forall>x \<in> set (butlast ?pre). offset x \<noteq> off"
        using pre by (auto dest: in_set_butlastD)
      ultimately have "\<forall>x \<in> set (butlast ?pre @ ?p # rest2). offset x \<noteq> off"
        using post by auto
      from free_scan_nomatch [OF this] r show ?thesis by simp
    next
      case nm: False
      have r: "free_scan off [] None bs = ?pre @ b2 # rest2"
        using first False sh(1) nm bs by auto
      from free_scan_decomp [OF pre sh(2), of rest2] sh(3) r show ?thesis by simp
    qed
  qed
qed

text \<open>
  C4.  \<^verbatim>\<open>mem_free\<close> is the release of the specification, and touches nothing but
  the ledger.  It is a no-op for \<^verbatim>\<open>NULL\<close>, for an address that matches no
  descriptor's offset, and when the first matching descriptor is already free.
  Otherwise, with the ledger \<open>pre @ b # post\<close> and \<open>b\<close> the first match, it marks \<open>b\<close>
  free, merges it with the next descriptor if that is free (absorbing its length and
  dropping it), then merges the result into the previous descriptor if that is free
  (absorbing its length and dropping the current one).  In a ledger that partitions the
  arena a second release of the same address changes nothing.
\<close>

theorem mem_free_release:
  "mem_free s a = s\<lparr>block_list := spec_release (block_list s) a\<rparr> \<and>
   mem_free s None = s \<and>
   ((\<forall>x \<in> set (block_list s). offset x \<noteq> off) \<longrightarrow> mem_free s (Some off) = s) \<and>
   (\<forall>pre b post.
      block_list s = pre @ b # post \<and> (\<forall>x \<in> set pre. offset x \<noteq> off) \<and> offset b = off \<longrightarrow>
      (is_free b \<longrightarrow> mem_free s (Some off) = s) \<and>
      (\<not> is_free b \<longrightarrow>
         mem_free s (Some off) =
           s\<lparr>block_list :=
               spec_merge_prev pre (spec_merge_next (b\<lparr>is_free := True\<rparr>) post)\<rparr>)) \<and>
   (ledger_ok s \<longrightarrow> mem_free (mem_free s a) a = mem_free s a)"
proof (intro conjI allI impI)
  show "mem_free s a = s\<lparr>block_list := spec_release (block_list s) a\<rparr>"
    by (cases a) (simp_all add: mem_free_def free_scan_spec spec_release_def)
  show "mem_free s None = s" by (simp add: mem_free_def)
next
  assume "\<forall>x \<in> set (block_list s). offset x \<noteq> off"
  from free_scan_nomatch [OF this] show "mem_free s (Some off) = s"
    by (simp add: mem_free_def)
next
  fix pre b post
  assume h: "block_list s = pre @ b # post \<and> (\<forall>x \<in> set pre. offset x \<noteq> off) \<and>
    offset b = off"
  then have d: "free_scan off [] None (block_list s) =
     (if is_free b then pre @ b # post
      else spec_merge_prev pre (spec_merge_next (b\<lparr>is_free := True\<rparr>) post))"
    using free_scan_decomp [of pre off b post] by simp
  {
    assume "is_free b"
    with d h show "mem_free s (Some off) = s" by (simp add: mem_free_def)
  }
  {
    assume "\<not> is_free b"
    with d show "mem_free s (Some off) =
           s\<lparr>block_list :=
               spec_merge_prev pre (spec_merge_next (b\<lparr>is_free := True\<rparr>) post)\<rparr>"
      by (simp add: mem_free_def)
  }
next
  assume "ledger_ok s"
  then have "partitions 0 (block_list s) (unat (pool_size s))" by (simp add: ledger_ok_def)
  from free_scan_twice [OF this] show "mem_free (mem_free s a) a = mem_free s a"
    by (cases a) (simp_all add: mem_free_def)
qed

theorem mem_free_release_witness:
  "block_list pool_frag =
     [\<lparr>offset = 0, size_b = 30, is_free = True\<rparr>]
     @ \<lparr>offset = 30, size_b = 20, is_free = False\<rparr>
     # [\<lparr>offset = 50, size_b = 50, is_free = True\<rparr>] \<and>
   ledger_ok pool_frag \<and>
   mem_free pool_frag (Some 30) =
     pool_frag\<lparr>block_list := [\<lparr>offset = 0, size_b = 100, is_free = True\<rparr>]\<rparr> \<and>
   mem_free (mem_free pool_frag (Some 30)) (Some 30) = mem_free pool_frag (Some 30)"
proof -
  have bl: "block_list pool_frag =
     [\<lparr>offset = 0, size_b = 30, is_free = True\<rparr>]
     @ \<lparr>offset = 30, size_b = 20, is_free = False\<rparr>
     # [\<lparr>offset = 50, size_b = 50, is_free = True\<rparr>]"
    by (simp add: pool_frag_eq)
  have lo: "ledger_ok pool_frag" by (simp add: pool_frag_eq ledger_ok_def)
  note t = mem_free_release [of pool_frag "Some 30" 30]
  from t have "block_list pool_frag =
      [\<lparr>offset = 0, size_b = 30, is_free = True\<rparr>]
      @ \<lparr>offset = 30, size_b = 20, is_free = False\<rparr>
      # [\<lparr>offset = 50, size_b = 50, is_free = True\<rparr>] \<and>
      (\<forall>x \<in> set [\<lparr>offset = 0, size_b = 30, is_free = True\<rparr>]. offset x \<noteq> 30) \<and>
      offset \<lparr>offset = 30, size_b = 20, is_free = False\<rparr> = 30 \<longrightarrow>
      (\<not> is_free \<lparr>offset = 30, size_b = 20, is_free = False\<rparr> \<longrightarrow>
        mem_free pool_frag (Some 30) =
          pool_frag\<lparr>block_list :=
            spec_merge_prev [\<lparr>offset = 0, size_b = 30, is_free = True\<rparr>]
              (spec_merge_next
                 (\<lparr>offset = 30, size_b = 20, is_free = False\<rparr>\<lparr>is_free := True\<rparr>)
                 [\<lparr>offset = 50, size_b = 50, is_free = True\<rparr>])\<rparr>)"
    by blast
  moreover from t have
    "ledger_ok pool_frag \<longrightarrow>
     mem_free (mem_free pool_frag (Some 30)) (Some 30) = mem_free pool_frag (Some 30)"
    by blast
  ultimately show ?thesis using bl lo by simp
qed

subsection \<open>Resize in place\<close>

lemma pool_half_eq:
  "pool_half = \<lparr>memory_pool = zero_bytes, pool_size = 100, block_list =
     [\<lparr>offset = 0, size_b = 50, is_free = False\<rparr>,
      \<lparr>offset = 50, size_b = 50, is_free = True\<rparr>]\<rparr>"
  by (simp add: pool_half_def run_def pool100_def mem_alloc_def create_initial_block_def)

lemma resize_scan_skip:
  "\<forall>x \<in> set pre. offset x \<noteq> off \<Longrightarrow>
   resize_scan ok off n (pre @ rest) =
     (fst (resize_scan ok off n rest), pre @ snd (resize_scan ok off n rest))"
  by (induction pre) (simp_all add: case_prod_unfold)

lemma mem_resize_found:
  assumes "n \<noteq> 0" and "block_list s = pre @ b # post"
    and "\<forall>x \<in> set pre. offset x \<noteq> a" and "offset b = a"
    and "resize_scan ok a n (b # post) = (Done r, bl)"
  shows "mem_resize ok s (Some a) n = (r, s\<lparr>block_list := pre @ bl\<rparr>)"
  using assms resize_scan_skip [OF assms(3), of ok n "b # post"]
  by (simp add: mem_resize_def)

lemma partitions_pair_end:
  assumes "c < 2 ^ 64" and "partitions st (pre @ b # nx # rest) c"
  shows "unat (offset b) + unat (size_b b) + unat (size_b nx) < 2 ^ 64"
proof -
  from assms(2) obtain m where "partitions m (b # nx # rest) c"
    unfolding partitions_append by blast
  then have "unat (offset b) = m"
    and "partitions (m + unat (size_b b) + unat (size_b nx)) rest c" by simp_all
  then show ?thesis
    using partitions_le [of "m + unat (size_b b) + unat (size_b nx)" rest c] assms(1) by simp
qed

text \<open>
  C5, as the code has it.  Let \<open>a\<close> match a used descriptor \<open>b\<close> (the first of the
  chain with that offset) and let \<open>n > 0\<close>.  If the length of \<open>b\<close> is \<open>n\<close>, nothing
  changes and \<open>a\<close> is returned.  If it is larger and the \<^verbatim>\<open>malloc\<close> of the new
  descriptor succeeds, \<open>b\<close> is shrunk to \<open>n\<close>, a free descriptor for the leftover is
  inserted after it, and \<open>a\<close> is returned.  If it is smaller, the next descriptor is
  free and the two lengths together reach \<open>n\<close>, the two are merged into one descriptor
  of the used block; when the merged length exceeds \<open>n\<close> and the \<^verbatim>\<open>malloc\<close> of the
  new descriptor succeeds, a trailing free remainder is split off; \<open>a\<close> is returned.
  Whenever a split is needed and the \<^verbatim>\<open>malloc\<close> of its descriptor fails, the result is
  \<^verbatim>\<open>NULL\<close> instead of \<open>a\<close>: on the shrink path the pool is unchanged, on the grow path
  the merge has been done and stays.  In a ledger that partitions the arena no sum here
  wraps around.
\<close>

theorem mem_resize_in_place:
  assumes "n \<noteq> 0" and "block_list s = pre @ b # post"
    and "\<forall>x \<in> set pre. offset x \<noteq> a" and "offset b = a" and "\<not> is_free b"
  shows
   "(n = size_b b \<longrightarrow> mem_resize ok s (Some a) n = (Some a, s)) \<and>
    (n < size_b b \<and> ok \<longrightarrow>
       mem_resize ok s (Some a) n =
         (Some a,
          s\<lparr>block_list :=
              pre @ b\<lparr>size_b := n\<rparr>
              # \<lparr>offset = a + n, size_b = size_b b - n, is_free = True\<rparr> # post\<rparr>) \<and>
       unat (size_b b - n) = unat (size_b b) - unat n \<and>
       (ledger_ok s \<longrightarrow> unat (a + n) = unat a + unat n)) \<and>
    (n < size_b b \<and> \<not> ok \<longrightarrow> mem_resize ok s (Some a) n = (None, s)) \<and>
    (\<forall>nx rest.
       post = nx # rest \<and> is_free nx \<and> size_b b < n \<and> ledger_ok s \<and>
       unat n \<le> unat (size_b b) + unat (size_b nx) \<longrightarrow>
       (unat n = unat (size_b b) + unat (size_b nx) \<longrightarrow>
          mem_resize ok s (Some a) n =
            (Some a, s\<lparr>block_list := pre @ b\<lparr>size_b := n\<rparr> # rest\<rparr>)) \<and>
       (unat n < unat (size_b b) + unat (size_b nx) \<and> ok \<longrightarrow>
          mem_resize ok s (Some a) n =
            (Some a,
             s\<lparr>block_list :=
                 pre @ b\<lparr>size_b := n\<rparr>
                 # \<lparr>offset = a + n, size_b = size_b b + size_b nx - n, is_free = True\<rparr>
                 # rest\<rparr>) \<and>
          unat (a + n) = unat a + unat n \<and>
          unat (size_b b + size_b nx - n) = unat (size_b b) + unat (size_b nx) - unat n) \<and>
       (unat n < unat (size_b b) + unat (size_b nx) \<and> \<not> ok \<longrightarrow>
          mem_resize ok s (Some a) n =
            (None,
             s\<lparr>block_list := pre @ b\<lparr>size_b := size_b b + size_b nx\<rparr> # rest\<rparr>)))"
proof (intro conjI allI impI)
  assume "n = size_b b"
  then have "resize_scan ok a n (b # post) = (Done (Some a), b # post)"
    using assms(4) by simp
  from mem_resize_found [OF assms(1-4) this] assms(2)
  show "mem_resize ok s (Some a) n = (Some a, s)" by simp
next
  assume h: "n < size_b b \<and> ok"
  then have "resize_scan ok a n (b # post) =
     (Done (Some a), b\<lparr>size_b := n\<rparr>
        # \<lparr>offset = a + n, size_b = size_b b - n, is_free = True\<rparr> # post)"
    using assms(4) by auto
  from mem_resize_found [OF assms(1-4) this]
  show "mem_resize ok s (Some a) n =
         (Some a,
          s\<lparr>block_list :=
              pre @ b\<lparr>size_b := n\<rparr>
              # \<lparr>offset = a + n, size_b = size_b b - n, is_free = True\<rparr> # post\<rparr>)"
    by simp
  show "unat (size_b b - n) = unat (size_b b) - unat n"
    using h by (simp add: unat_diff [OF less_imp_le])
  {
    assume "ledger_ok s"
    then have p: "partitions 0 (pre @ b # post) (unat (pool_size s))"
      using assms(2) by (simp add: ledger_ok_def)
    have "unat n < unat (size_b b)" using h by (simp add: word_less_nat_alt)
    with partitions_block_end [OF unat_pool_size p] assms(4)
    show "unat (a + n) = unat a + unat n" using unat_sum [of a n] by simp
  }
next
  assume "n < size_b b \<and> \<not> ok"
  then have "resize_scan ok a n (b # post) = (Done None, b # post)"
    using assms(4) by auto
  from mem_resize_found [OF assms(1-4) this] assms(2)
  show "mem_resize ok s (Some a) n = (None, s)" by simp
next
  fix nx rest
  assume h: "post = nx # rest \<and> is_free nx \<and> size_b b < n \<and> ledger_ok s \<and>
       unat n \<le> unat (size_b b) + unat (size_b nx)"
  then have p: "partitions 0 (pre @ b # nx # rest) (unat (pool_size s))"
    using assms(2) by (auto simp: ledger_ok_def)
  note e = partitions_pair_end [OF unat_pool_size p]
  then have sum: "unat (size_b b + size_b nx) = unat (size_b b) + unat (size_b nx)"
    using unat_sum [of "size_b b" "size_b nx"] by simp
  have le: "n \<le> size_b b + size_b nx" using h sum by (simp add: word_le_nat_alt)
  have nle: "\<not> n \<le> size_b b" using h by (simp add: not_le)
  {
    assume "unat n = unat (size_b b) + unat (size_b nx)"
    with sum have eq: "size_b b + size_b nx = n" by (simp add: word_unat_eq_iff)
    then have "resize_scan ok a n (b # post) = (Done (Some a), b\<lparr>size_b := n\<rparr> # rest)"
      using assms(4) h nle by (simp add: Let_def)
    from mem_resize_found [OF assms(1-4) this]
    show "mem_resize ok s (Some a) n =
            (Some a, s\<lparr>block_list := pre @ b\<lparr>size_b := n\<rparr> # rest\<rparr>)" by simp
  }
  {
    assume g: "unat n < unat (size_b b) + unat (size_b nx) \<and> ok"
    with sum have lt: "n < size_b b + size_b nx" by (simp add: word_less_nat_alt)
    then have "resize_scan ok a n (b # post) =
       (Done (Some a), b\<lparr>size_b := n\<rparr>
          # \<lparr>offset = a + n, size_b = size_b b + size_b nx - n, is_free = True\<rparr> # rest)"
      using assms(4) h nle le g by (simp add: Let_def)
    from mem_resize_found [OF assms(1-4) this]
    show "mem_resize ok s (Some a) n =
            (Some a,
             s\<lparr>block_list :=
                 pre @ b\<lparr>size_b := n\<rparr>
                 # \<lparr>offset = a + n, size_b = size_b b + size_b nx - n, is_free = True\<rparr>
                 # rest\<rparr>)" by simp
    show "unat (a + n) = unat a + unat n"
      using e g assms(4) unat_sum [of a n] by simp
    show "unat (size_b b + size_b nx - n) = unat (size_b b) + unat (size_b nx) - unat n"
      using le sum by (simp add: unat_diff)
  }
  {
    assume g: "unat n < unat (size_b b) + unat (size_b nx) \<and> \<not> ok"
    with sum have lt: "n < size_b b + size_b nx" by (simp add: word_less_nat_alt)
    then have "resize_scan ok a n (b # post) =
       (Done None, b\<lparr>size_b := size_b b + size_b nx\<rparr> # rest)"
      using assms(4) h nle le g by (simp add: Let_def)
    from mem_resize_found [OF assms(1-4) this]
    show "mem_resize ok s (Some a) n =
            (None,
             s\<lparr>block_list := pre @ b\<lparr>size_b := size_b b + size_b nx\<rparr> # rest\<rparr>)"
      by simp
  }
qed

theorem mem_resize_in_place_witness:
  "(70 :: size_t) \<noteq> 0 \<and>
   block_list pool_half =
     [] @ \<lparr>offset = 0, size_b = 50, is_free = False\<rparr>
     # [\<lparr>offset = 50, size_b = 50, is_free = True\<rparr>] \<and>
   ledger_ok pool_half \<and>
   mem_resize True pool_half (Some 0) 30 =
     (Some 0,
      pool_half\<lparr>block_list :=
        [\<lparr>offset = 0, size_b = 30, is_free = False\<rparr>,
         \<lparr>offset = 30, size_b = 20, is_free = True\<rparr>,
         \<lparr>offset = 50, size_b = 50, is_free = True\<rparr>]\<rparr>) \<and>
   mem_resize True pool_half (Some 0) 70 =
     (Some 0,
      pool_half\<lparr>block_list :=
        [\<lparr>offset = 0, size_b = 70, is_free = False\<rparr>,
         \<lparr>offset = 70, size_b = 30, is_free = True\<rparr>]\<rparr>) \<and>
   mem_resize False pool_half (Some 0) 40 = (None, pool_half) \<and>
   mem_resize False pool_half (Some 0) 60 =
     (None, pool_half\<lparr>block_list := [\<lparr>offset = 0, size_b = 100, is_free = False\<rparr>]\<rparr>)"
proof -
  have bl: "block_list pool_half =
     [] @ \<lparr>offset = 0, size_b = 50, is_free = False\<rparr>
     # [\<lparr>offset = 50, size_b = 50, is_free = True\<rparr>]"
    by (simp add: pool_half_eq)
  have lo: "ledger_ok pool_half" by (simp add: pool_half_eq ledger_ok_def)
  have pre: "\<forall>x \<in> set ([] :: MemBlock list). offset x \<noteq> 0" by simp
  have b: "offset \<lparr>offset = 0, size_b = 50, is_free = False\<rparr> = 0"
    "\<not> is_free \<lparr>offset = 0, size_b = 50, is_free = False\<rparr>" by simp_all
  have n30: "(30 :: size_t) \<noteq> 0" and n70: "(70 :: size_t) \<noteq> 0" by simp_all
  have n40: "(40 :: size_t) \<noteq> 0" and n60: "(60 :: size_t) \<noteq> 0" by simp_all
  from mem_resize_in_place [OF n30 bl pre b, of True]
  have shrink: "mem_resize True pool_half (Some 0) 30 =
     (Some 0,
      pool_half\<lparr>block_list :=
        [\<lparr>offset = 0, size_b = 30, is_free = False\<rparr>,
         \<lparr>offset = 30, size_b = 20, is_free = True\<rparr>,
         \<lparr>offset = 50, size_b = 50, is_free = True\<rparr>]\<rparr>)"
    by simp
  from mem_resize_in_place [OF n70 bl pre b, of True]
  have "[\<lparr>offset = 50, size_b = 50, is_free = True\<rparr>] =
      \<lparr>offset = 50, size_b = 50, is_free = True\<rparr> # [] \<and>
      is_free \<lparr>offset = 50, size_b = 50, is_free = True\<rparr> \<and>
      size_b \<lparr>offset = 0, size_b = 50, is_free = False\<rparr> < 70 \<and> ledger_ok pool_half \<and>
      unat (70 :: size_t) \<le> unat (size_b \<lparr>offset = 0, size_b = 50, is_free = False\<rparr>) +
        unat (size_b \<lparr>offset = 50, size_b = 50, is_free = True\<rparr>) \<longrightarrow>
      (unat (70 :: size_t) < unat (size_b \<lparr>offset = 0, size_b = 50, is_free = False\<rparr>) +
        unat (size_b \<lparr>offset = 50, size_b = 50, is_free = True\<rparr>) \<and> True \<longrightarrow>
       mem_resize True pool_half (Some 0) 70 =
         (Some 0,
          pool_half\<lparr>block_list :=
            [] @ \<lparr>offset = 0, size_b = 50, is_free = False\<rparr>\<lparr>size_b := 70\<rparr>
            # \<lparr>offset = 0 + 70,
                size_b = size_b \<lparr>offset = 0, size_b = 50, is_free = False\<rparr> +
                  size_b \<lparr>offset = 50, size_b = 50, is_free = True\<rparr> - 70,
                is_free = True\<rparr>
            # []\<rparr>))"
    by blast
  with lo have grow: "mem_resize True pool_half (Some 0) 70 =
     (Some 0,
      pool_half\<lparr>block_list :=
        [\<lparr>offset = 0, size_b = 70, is_free = False\<rparr>,
         \<lparr>offset = 70, size_b = 30, is_free = True\<rparr>]\<rparr>)"
    by simp
  from mem_resize_in_place [OF n40 bl pre b, of False]
  have shrink_fail: "mem_resize False pool_half (Some 0) 40 = (None, pool_half)"
    by simp
  from mem_resize_in_place [OF n60 bl pre b, of False]
  have "[\<lparr>offset = 50, size_b = 50, is_free = True\<rparr>] =
      \<lparr>offset = 50, size_b = 50, is_free = True\<rparr> # [] \<and>
      is_free \<lparr>offset = 50, size_b = 50, is_free = True\<rparr> \<and>
      size_b \<lparr>offset = 0, size_b = 50, is_free = False\<rparr> < 60 \<and> ledger_ok pool_half \<and>
      unat (60 :: size_t) \<le> unat (size_b \<lparr>offset = 0, size_b = 50, is_free = False\<rparr>) +
        unat (size_b \<lparr>offset = 50, size_b = 50, is_free = True\<rparr>) \<longrightarrow>
      (unat (60 :: size_t) < unat (size_b \<lparr>offset = 0, size_b = 50, is_free = False\<rparr>) +
        unat (size_b \<lparr>offset = 50, size_b = 50, is_free = True\<rparr>) \<and> \<not> False \<longrightarrow>
       mem_resize False pool_half (Some 0) 60 =
         (None,
          pool_half\<lparr>block_list :=
            [] @ \<lparr>offset = 0, size_b = 50, is_free = False\<rparr>
                 \<lparr>size_b := size_b \<lparr>offset = 0, size_b = 50, is_free = False\<rparr> +
                    size_b \<lparr>offset = 50, size_b = 50, is_free = True\<rparr>\<rparr>
            # []\<rparr>))"
    by blast
  with lo have grow_fail: "mem_resize False pool_half (Some 0) 60 =
     (None, pool_half\<lparr>block_list := [\<lparr>offset = 0, size_b = 100, is_free = False\<rparr>]\<rparr>)"
    by simp
  from n70 bl lo shrink grow shrink_fail grow_fail show ?thesis by blast
qed

text \<open>
  Without the proviso on \<^verbatim>\<open>malloc\<close> the statement fails: when a leftover remains and the
  \<^verbatim>\<open>malloc\<close> of its descriptor fails, \<^verbatim>\<open>mem_resize\<close> returns \<^verbatim>\<open>NULL\<close>, not \<open>a\<close>,
  and the block is not shrunk.
\<close>

theorem mem_resize_shrink_malloc_fails_counterexample:
  "block_list pool_half =
     [\<lparr>offset = 0, size_b = 50, is_free = False\<rparr>, \<lparr>offset = 50, size_b = 50, is_free = True\<rparr>] \<and>
   mem_resize False pool_half (Some 0) 30 = (None, pool_half)"
  by (simp add: pool_half_eq mem_resize_def)

subsection \<open>A null result of mem\_resize\<close>

lemma alloc_scan_None:
  "fst (alloc_scan ok n bs) = None \<Longrightarrow> snd (alloc_scan ok n bs) = bs"
  by (induction bs) (auto simp: case_prod_unfold split: if_splits)

lemma mem_alloc_None: "mem_alloc ok s n = (None, s1) \<Longrightarrow> s1 = s"
  using alloc_scan_None [of ok n "block_list s"]
  by (auto simp: mem_alloc_def case_prod_unfold split: if_splits)

text \<open>
  C9.  Let \<open>a\<close> be non-null and match a used descriptor \<open>b\<close>, and let \<open>n > 0\<close>.  If
  \<^verbatim>\<open>mem_resize(a, n)\<close> returns \<^verbatim>\<open>NULL\<close>, then the arena's bytes are untouched (nothing
  was copied), the descriptor at \<open>a\<close> is still in the ledger at the same place and still
  marked used (it was not freed), and the ledger is unchanged, or, in the grow-by-merge
  path, differs only in that the descriptor at \<open>a\<close> has absorbed the free descriptor
  after it.
\<close>

theorem mem_resize_null_keeps_block:
  assumes "n \<noteq> 0" and "block_list s = pre @ b # post"
    and "\<forall>x \<in> set pre. offset x \<noteq> a" and "offset b = a" and "\<not> is_free b"
    and "mem_resize ok s (Some a) n = (None, s')"
  shows
   "memory_pool s' = memory_pool s \<and> pool_size s' = pool_size s \<and>
    (block_list s' = block_list s \<or>
     (\<exists>nx rest. post = nx # rest \<and> is_free nx \<and> size_b b < n \<and>
        block_list s' = pre @ b\<lparr>size_b := size_b b + size_b nx\<rparr> # rest)) \<and>
    (\<exists>b' post'. block_list s' = pre @ b' # post' \<and> offset b' = a \<and> \<not> is_free b')"
proof -
  obtain r bl where sc: "resize_scan ok a n (b # post) = (r, bl)"
    by (cases "resize_scan ok a n (b # post)")
  then have whole: "resize_scan ok a n (block_list s) = (r, pre @ bl)"
    using resize_scan_skip [OF assms(3), of ok n "b # post"] assms(2) by simp
  show ?thesis
  proof (cases r)
    case NotFound
    then show ?thesis using sc assms(4) by (auto simp: Let_def split: if_splits list.splits)
  next
    case (Relocate old_size)
    then have bl: "bl = b # post"
      using sc assms(4) by (auto simp: Let_def split: if_splits list.splits)
    obtain q s1 where al: "mem_alloc ok (s\<lparr>block_list := pre @ bl\<rparr>) n = (q, s1)"
      by (cases "mem_alloc ok (s\<lparr>block_list := pre @ bl\<rparr>) n")
    have same: "s\<lparr>block_list := pre @ bl\<rparr> = s" using bl assms(2) by simp
    have "q = None \<and> s' = s1"
      using assms(1,6) whole Relocate al by (cases q) (simp_all add: mem_resize_def)
    with al same have "s' = s" using mem_alloc_None [of ok s n s1] by simp
    then show ?thesis using assms(2,4,5) by auto
  next
    case (Done p)
    have res: "mem_resize ok s (Some a) n = (p, s\<lparr>block_list := pre @ bl\<rparr>)"
      using assms(1) whole Done by (simp add: mem_resize_def)
    with assms(6) have p: "p = None" and s': "s' = s\<lparr>block_list := pre @ bl\<rparr>" by simp_all
    have "bl = b # post \<or>
      (\<exists>nx rest. post = nx # rest \<and> is_free nx \<and> size_b b < n \<and>
         bl = b\<lparr>size_b := size_b b + size_b nx\<rparr> # rest)"
      using sc Done p assms(4)
      by (auto simp: Let_def not_le split: if_splits list.splits)
    then show ?thesis using s' assms(2,4,5) by auto
  qed
qed

theorem mem_resize_null_keeps_block_witness:
  "(70 :: size_t) \<noteq> 0 \<and>
   block_list pool_half =
     [] @ \<lparr>offset = 0, size_b = 50, is_free = False\<rparr>
     # [\<lparr>offset = 50, size_b = 50, is_free = True\<rparr>] \<and>
   mem_resize False pool_half (Some 0) 70 =
     (None, pool_half\<lparr>block_list := [\<lparr>offset = 0, size_b = 100, is_free = False\<rparr>]\<rparr>) \<and>
   memory_pool (pool_half\<lparr>block_list := [\<lparr>offset = 0, size_b = 100, is_free = False\<rparr>]\<rparr>) =
     memory_pool pool_half"
proof -
  have bl: "block_list pool_half =
     [] @ \<lparr>offset = 0, size_b = 50, is_free = False\<rparr>
     # [\<lparr>offset = 50, size_b = 50, is_free = True\<rparr>]"
    by (simp add: pool_half_eq)
  have pre: "\<forall>x \<in> set ([] :: MemBlock list). offset x \<noteq> 0" by simp
  have b: "offset \<lparr>offset = 0, size_b = 50, is_free = False\<rparr> = 0"
    "\<not> is_free \<lparr>offset = 0, size_b = 50, is_free = False\<rparr>" by simp_all
  have n70: "(70 :: size_t) \<noteq> 0" by simp
  have r: "mem_resize False pool_half (Some 0) 70 =
     (None, pool_half\<lparr>block_list := [\<lparr>offset = 0, size_b = 100, is_free = False\<rparr>]\<rparr>)"
    by (simp add: pool_half_eq mem_resize_def)
  from mem_resize_null_keeps_block [OF n70 bl pre b r] n70 bl r show ?thesis by blast
qed

subsection \<open>Adjacent free descriptors\<close>

lemma naf_Cons:
  "no_adjacent_free (a # bs) \<longleftrightarrow>
     (bs = [] \<or> \<not> (is_free a \<and> is_free (hd bs))) \<and> no_adjacent_free bs"
  by (cases bs) auto

lemma naf_append:
  "no_adjacent_free (xs @ ys) \<longleftrightarrow>
     no_adjacent_free xs \<and> no_adjacent_free ys \<and>
     (xs = [] \<or> ys = [] \<or> \<not> (is_free (last xs) \<and> is_free (hd ys)))"
proof (induction xs)
  case Nil
  then show ?case by simp
next
  case (Cons a xs)
  show ?case
  proof (cases xs)
    case Nil
    then show ?thesis by (cases ys) auto
  next
    case (Cons a' xs')
    then show ?thesis using Cons.IH by auto
  qed
qed

lemma alloc_scan_naf:
  "no_adjacent_free bs \<Longrightarrow>
   no_adjacent_free (snd (alloc_scan ok n bs)) \<and>
   (bs \<noteq> [] \<longrightarrow> snd (alloc_scan ok n bs) \<noteq> [] \<and>
      (is_free (hd (snd (alloc_scan ok n bs))) \<longrightarrow> is_free (hd bs)))"
proof (induction bs)
  case Nil
  then show ?case by simp
next
  case (Cons cur rest)
  from Cons.prems have tl: "no_adjacent_free rest" by (simp add: naf_Cons)
  note ih = Cons.IH [OF tl]
  show ?case
  proof (cases "\<not> is_free cur \<or> size_b cur < n")
    case True
    then have "snd (alloc_scan ok n (cur # rest)) = cur # snd (alloc_scan ok n rest)"
      by (simp add: case_prod_unfold)
    then show ?thesis using ih Cons.prems by (auto simp: naf_Cons)
  next
    case False
    then show ?thesis using Cons.prems by (auto simp: naf_Cons)
  qed
qed

lemma mem_alloc_no_adjacent_free:
  "no_adjacent_free (block_list s) \<Longrightarrow> no_adjacent_free (block_list (snd (mem_alloc ok s n)))"
  using alloc_scan_naf [of "block_list s" ok n] by (simp add: mem_alloc_def case_prod_unfold)

lemma spec_merge_next_naf:
  assumes "no_adjacent_free (b # post)" and "is_free b1"
  shows "\<exists>b2 rest2. spec_merge_next b1 post = b2 # rest2 \<and> is_free b2 \<and>
     no_adjacent_free (b2 # rest2)"
proof (cases post)
  case Nil
  then show ?thesis using assms by simp
next
  case (Cons nx rest')
  then show ?thesis using assms by (cases "is_free nx") (auto simp: naf_Cons)
qed

lemma free_scan_naf:
  assumes "no_adjacent_free bs"
  shows "no_adjacent_free (free_scan off [] None bs)"
proof (cases "dropWhile (\<lambda>b. offset b \<noteq> off) bs")
  case Nil
  then have "\<forall>x \<in> set bs. offset x \<noteq> off" by (simp add: dropWhile_eq_Nil_conv)
  from free_scan_nomatch [OF this] assms show ?thesis by simp
next
  case (Cons b post)
  let ?pre = "takeWhile (\<lambda>b. offset b \<noteq> off) bs"
  have bs: "bs = ?pre @ b # post" using Cons takeWhile_dropWhile_id [of _ bs] by metis
  have pre: "\<forall>x \<in> set ?pre. offset x \<noteq> off" by (auto dest: set_takeWhileD)
  have b: "offset b = off" using hd_dropWhile [of "\<lambda>b. offset b \<noteq> off" bs] Cons by simp
  note first = free_scan_decomp [OF pre b, of post]
  from assms bs have parts: "no_adjacent_free ?pre" "no_adjacent_free (b # post)"
    using naf_append [of ?pre "b # post"] by auto
  show ?thesis
  proof (cases "is_free b")
    case True
    with first bs assms show ?thesis by simp
  next
    case False
    obtain b2 rest2 where sh: "spec_merge_next (b\<lparr>is_free := True\<rparr>) post = b2 # rest2"
      "is_free b2" "no_adjacent_free (b2 # rest2)"
      using spec_merge_next_naf [OF parts(2), of "b\<lparr>is_free := True\<rparr>"] by auto
    show ?thesis
    proof (cases "?pre \<noteq> [] \<and> is_free (last ?pre)")
      case True
      let ?p = "(last ?pre)\<lparr>size_b := size_b (last ?pre) + size_b b2\<rparr>"
      have r: "free_scan off [] None bs = butlast ?pre @ ?p # rest2"
        using first False sh(1) True bs by simp
      from naf_append [of "butlast ?pre" "[last ?pre]"] parts(1) True
      have "no_adjacent_free (butlast ?pre)"
        and "butlast ?pre = [] \<or> \<not> is_free (last (butlast ?pre))"
        by auto
      moreover have "no_adjacent_free (?p # rest2)" using sh(2,3) by (auto simp: naf_Cons)
      ultimately have "no_adjacent_free (butlast ?pre @ ?p # rest2)"
        by (auto simp: naf_append)
      with r show ?thesis by simp
    next
      case nm: False
      have r: "free_scan off [] None bs = ?pre @ b2 # rest2"
        using first False sh(1) nm bs by auto
      have "no_adjacent_free (?pre @ b2 # rest2)"
        using parts(1) sh(3) nm by (auto simp: naf_append)
      with r show ?thesis by simp
    qed
  qed
qed

lemma mem_free_no_adjacent_free:
  "no_adjacent_free (block_list s) \<Longrightarrow> no_adjacent_free (block_list (mem_free s p))"
  using free_scan_naf [of "block_list s"] by (cases p) (simp_all add: mem_free_def)

lemma alloc_release_no_adjacent_free:
  assumes "\<forall>c \<in> set cs. (\<exists>ok n. c = Allocate ok n) \<or> (\<exists>p. c = Release p)"
    and "no_adjacent_free (block_list s)"
  shows "no_adjacent_free (block_list (run s cs))"
  using assms unfolding run_def
proof (induction cs arbitrary: s)
  case Nil
  then show ?case by simp
next
  case (Cons c cs)
  from Cons.prems have "no_adjacent_free (block_list (step s c))"
    by (auto simp: mem_alloc_no_adjacent_free mem_free_no_adjacent_free)
  with Cons.IH [of "step s c"] Cons.prems(1) show ?case by simp
qed

text \<open>
  C2 asks that no two adjacent descriptors are ever both free.  \<open>mem_alloc\<close> and
  \<open>mem_free\<close> keep that, in every sequence of their calls, but the shrink path of \<open>mem_resize\<close>
  does not: after \<^verbatim>\<open>mem_init(100); a = mem_alloc(50); mem_resize(a, 30)\<close> the free
  remainder \<open>[30, 50)\<close> sits in front of the free block \<open>[50, 100)\<close>, unmerged, and a
  request for 60 bytes fails although 70 contiguous bytes are free.
\<close>

theorem mem_resize_shrink_leaves_adjacent_free:
  "no_adjacent_free (block_list (run pool100 [Allocate True 50])) \<and>
   block_list (run pool100 [Allocate True 50, Resize True (Some 0) 30]) =
     [\<lparr>offset = 0, size_b = 30, is_free = False\<rparr>,
      \<lparr>offset = 30, size_b = 20, is_free = True\<rparr>,
      \<lparr>offset = 50, size_b = 50, is_free = True\<rparr>] \<and>
   \<not> no_adjacent_free (block_list (run pool100 [Allocate True 50, Resize True (Some 0) 30])) \<and>
   fst (mem_alloc True (run pool100 [Allocate True 50, Resize True (Some 0) 30]) 60) = None"
  by (simp add: run_def pool100_def mem_alloc_def mem_resize_def create_initial_block_def)

end
